theory Spec2Isabelle
  imports Main "HOL-Library.Sublist"
begin

section \<open>The project tree of the playground\<close>

text \<open>
  The embedded program is \<^verbatim>\<open>src/components/PlaygroundLayout.tsx\<close>: the React component
  that holds the project tree (\<^verbatim>\<open>files\<close>), the active document (\<^verbatim>\<open>currentFile\<close>) and the
  debounced persistence of the tree to the project store.
\<close>

subsection \<open>Data model\<close>

text \<open>
  Modelled from the spec: the declaration of \<^verbatim>\<open>FileNode\<close> lives in \<^verbatim>\<open>./FileExplorer\<close>, which is
  not among the sources. The fields are the ones the component reads and writes
  (\<^verbatim>\<open>id\<close>, \<^verbatim>\<open>name\<close>, \<^verbatim>\<open>type\<close>, \<^verbatim>\<open>path\<close>, the optional \<^verbatim>\<open>content\<close> and the optional
  \<^verbatim>\<open>children\<close>); \<open>None\<close> stands for \<^verbatim>\<open>undefined\<close>. A node is a JavaScript object and the
  in-memory tree "keeps richer/looser shapes" than the persisted one, so a node also
  carries \<open>other\<close>: whatever further properties the object has (key and value), which an
  object spread copies and which \<^verbatim>\<open>sanitizeFileTree\<close> does not.
\<close>

datatype NodeType = File | Folder

datatype FileNode = FileNode
  (id_of: string) (name: string) (type: NodeType) (path: string)
  (content: "string option") (children: "FileNode list option")
  (other: "(string \<times> string) list")

lemma size_children_node [termination_simp]:
  "children x = Some cs \<Longrightarrow> size_list size cs < size x"
  by (cases x) auto

lemma size_children_member [termination_simp]:
  assumes "x \<in> set nodes" and "children x = Some cs"
  shows "size_list size cs < size_list size nodes"
proof -
  have "size_list size cs < size x"
    using assms(2) by (rule size_children_node)
  moreover have "size x \<le> size_list size nodes"
    using assms(1) by (simp add: size_list_estimation')
  ultimately show ?thesis by linarith
qed

text \<open>
  Every node of a tree, depth first, a parent before its children and children in stored
  order: the order in which the component's searches visit the tree. A node's children are
  visited whenever \<^verbatim>\<open>node.children\<close> is defined, whatever the node's type, as in the source.
\<close>

fun nodes_of :: "FileNode list \<Rightarrow> FileNode list" where
  "nodes_of nodes =
     concat (map (\<lambda>node. node # (case children node of None \<Rightarrow> [] | Some cs \<Rightarrow> nodes_of cs)) nodes)"

text \<open>The spec's invariant "no two nodes share a path".\<close>

definition unique_paths :: "FileNode list \<Rightarrow> bool" where
  "unique_paths tree = distinct (map path (nodes_of tree))"

text \<open>
  The node that a path resolves to: the first node with that path in traversal order,
  whatever its type. (The search of the source, \<^verbatim>\<open>findFileByPath\<close> below, only matches
  files.)
\<close>

definition node_at :: "FileNode list \<Rightarrow> string \<Rightarrow> FileNode option" where
  "node_at tree p = List.find (\<lambda>node. path node = p) (nodes_of tree)"

subsection \<open>Tree operations\<close>

text \<open>
  \<^verbatim>\<open>findFirstFile\<close> (lines 48-57): the loop returns the first file; it descends only into
  a non-empty \<^verbatim>\<open>children\<close> array.
\<close>

fun findFirstFile :: "FileNode list \<Rightarrow> FileNode option" where
  "findFirstFile [] = None"
| "findFirstFile (n # nodes) =
     (if type n = File then Some n
      else (case children n of
              Some cs \<Rightarrow>
                (if cs \<noteq> [] then
                   (case findFirstFile cs of
                      Some f \<Rightarrow> Some f
                    | None \<Rightarrow> findFirstFile nodes)
                 else findFirstFile nodes)
            | None \<Rightarrow> findFirstFile nodes))"

text \<open>
  \<^verbatim>\<open>sanitizeFileTree\<close> (lines 59-76): a fresh object with the four common fields, then
  \<^verbatim>\<open>content\<close> (\<^verbatim>\<open>node.content ?? ''\<close>) on a file and \<^verbatim>\<open>children\<close> on anything else.
\<close>

fun sanitizeFileTree :: "FileNode list \<Rightarrow> FileNode list" where
  "sanitizeFileTree nodes = map (\<lambda>node.
      if type node = File then
        FileNode (id_of node) (name node) (type node) (path node)
          (Some (case content node of None \<Rightarrow> [] | Some c \<Rightarrow> c)) None []
      else
        FileNode (id_of node) (name node) (type node) (path node)
          None (Some (case children node of None \<Rightarrow> [] | Some cs \<Rightarrow> sanitizeFileTree cs)) [])
    nodes"

text \<open>
  \<^verbatim>\<open>findFileByPath\<close> (lines 160-171, and again 248-259): only a node of type file matches;
  the search descends into every defined \<^verbatim>\<open>children\<close>.
\<close>

fun findFileByPath :: "FileNode list \<Rightarrow> string \<Rightarrow> FileNode option" where
  "findFileByPath [] targetPath = None"
| "findFileByPath (node # nodes) targetPath =
     (if path node = targetPath \<and> type node = File then Some node
      else (case children node of
              Some cs \<Rightarrow>
                (case findFileByPath cs targetPath of
                   Some found \<Rightarrow> Some found
                 | None \<Rightarrow> findFileByPath nodes targetPath)
            | None \<Rightarrow> findFileByPath nodes targetPath))"

text \<open>
  \<^verbatim>\<open>updateFileContent\<close> (lines 222-232), with the path of the active document and the new
  text as parameters: the comparison is on the path alone.
\<close>

fun updateFileContent :: "string \<Rightarrow> string \<Rightarrow> FileNode list \<Rightarrow> FileNode list" where
  "updateFileContent p newCode nodes = map (\<lambda>node.
      if path node = p then
        FileNode (id_of node) (name node) (type node) (path node)
          (Some newCode) (children node) (other node)
      else (case children node of
              Some cs \<Rightarrow>
                FileNode (id_of node) (name node) (type node) (path node)
                  (content node) (Some (updateFileContent p newCode cs)) (other node)
            | None \<Rightarrow> node))
    nodes"

text \<open>
  \<^verbatim>\<open>handleFileCreate\<close> (lines 266-301): the new node, and \<^verbatim>\<open>addToTree\<close>. The identifier is
  \<^verbatim>\<open>Date.now().toString()\<close>, a parameter here.
\<close>

definition newNode :: "string \<Rightarrow> string \<Rightarrow> string \<Rightarrow> NodeType \<Rightarrow> FileNode" where
  "newNode now parentPath nm ty =
     FileNode now nm ty
       (if parentPath = ''/'' then ''/'' @ nm else parentPath @ ''/'' @ nm)
       (if ty = File then Some [] else None)
       (if ty = Folder then Some [] else None)
       []"

fun addToTree :: "string \<Rightarrow> FileNode \<Rightarrow> FileNode list \<Rightarrow> FileNode list" where
  "addToTree parentPath new nodes =
     (if parentPath = ''/'' then nodes @ [new]
      else map (\<lambda>node.
        if path node = parentPath \<and> type node = Folder then
          FileNode (id_of node) (name node) (type node) (path node) (content node)
            (Some ((case children node of None \<Rightarrow> [] | Some cs \<Rightarrow> cs) @ [new])) (other node)
        else (case children node of
                Some cs \<Rightarrow>
                  FileNode (id_of node) (name node) (type node) (path node)
                    (content node) (Some (addToTree parentPath new cs)) (other node)
              | None \<Rightarrow> node))
      nodes)"

text \<open>\<^verbatim>\<open>deleteFromTree\<close> (lines 304-311): filter on the path, then rebuild every survivor.\<close>

fun deleteFromTree :: "string \<Rightarrow> FileNode list \<Rightarrow> FileNode list" where
  "deleteFromTree p nodes = map (\<lambda>node.
      FileNode (id_of node) (name node) (type node) (path node) (content node)
        (case children node of Some cs \<Rightarrow> Some (deleteFromTree p cs) | None \<Rightarrow> None)
        (other node))
    (filter (\<lambda>node. path node \<noteq> p) nodes)"

text \<open>
  \<^verbatim>\<open>renameInTree\<close> (lines 322-335). \<^verbatim>\<open>path.split('/')\<close> always has at least one part;
  the last part is overwritten and the parts are joined again.
\<close>

fun split_slash :: "string \<Rightarrow> string list" where
  "split_slash [] = [[]]"
| "split_slash (c # cs) =
     (if c = CHR ''/'' then [] # split_slash cs
      else (case split_slash cs of
              [] \<Rightarrow> [[c]]
            | w # ws \<Rightarrow> (c # w) # ws))"

fun join_slash :: "string list \<Rightarrow> string" where
  "join_slash [] = []"
| "join_slash [w] = w"
| "join_slash (w # ws) = w @ ''/'' @ join_slash ws"

definition renamedPath :: "string \<Rightarrow> string \<Rightarrow> string" where
  "renamedPath p newName =
     (let pathParts = split_slash p
      in join_slash (pathParts[length pathParts - 1 := newName]))"

fun renameInTree :: "string \<Rightarrow> string \<Rightarrow> FileNode list \<Rightarrow> FileNode list" where
  "renameInTree p newName nodes = map (\<lambda>node.
      if path node = p then
        FileNode (id_of node) newName (type node) (renamedPath p newName)
          (content node) (children node) (other node)
      else (case children node of
              Some cs \<Rightarrow>
                FileNode (id_of node) (name node) (type node) (path node)
                  (content node) (Some (renameInTree p newName cs)) (other node)
            | None \<Rightarrow> node))
    nodes"

subsection \<open>The active document\<close>

text \<open>
  The reconciliation effect (lines 157-177), run after every change of \<^verbatim>\<open>files\<close>: the
  result is the active document after the effect.
\<close>

definition reconcile :: "FileNode list \<Rightarrow> FileNode option \<Rightarrow> FileNode option" where
  "reconcile files currentFile =
     (case currentFile of
        None \<Rightarrow> None
      | Some cur \<Rightarrow>
          (case findFileByPath files (path cur) of
             Some latestFile \<Rightarrow>
               (if content latestFile \<noteq> content cur then Some latestFile else Some cur)
           | None \<Rightarrow> Some cur))"

text \<open>
  \<^verbatim>\<open>handleFileDelete\<close> (lines 303-319) on the pair of tree and active document: the only
  place where the component clears the active document.
\<close>

definition handleFileDelete ::
  "string \<Rightarrow> FileNode list \<times> FileNode option \<Rightarrow> FileNode list \<times> FileNode option" where
  "handleFileDelete p st =
     (let updatedFiles = deleteFromTree p (fst st)
      in (updatedFiles,
          (case snd st of
             Some cur \<Rightarrow>
               (if path cur = p
                then (case updatedFiles of [] \<Rightarrow> None | first # _ \<Rightarrow> Some first)
                else Some cur)
           | None \<Rightarrow> None)))"

text \<open>
  \<^verbatim>\<open>handleFileCreate\<close> (lines 266-301) on the same pair: the new node is added to the tree
  and becomes the active document when it is a file.
\<close>

definition handleFileCreate ::
  "string \<Rightarrow> string \<Rightarrow> string \<Rightarrow> NodeType \<Rightarrow>
   FileNode list \<times> FileNode option \<Rightarrow> FileNode list \<times> FileNode option" where
  "handleFileCreate now parentPath nm ty st =
     (addToTree parentPath (newNode now parentPath nm ty) (fst st),
      (if ty = File then Some (newNode now parentPath nm ty) else snd st))"

text \<open>
  \<^verbatim>\<open>handleCodeChange\<close> (lines 219-242), called by the editor with the new text: with an active
  document, the tree is mapped through \<^verbatim>\<open>updateFileContent\<close> at the document's path and
  the document gets the new text.
\<close>

definition handleCodeChange ::
  "string \<Rightarrow> FileNode list \<times> FileNode option \<Rightarrow> FileNode list \<times> FileNode option" where
  "handleCodeChange newCode st =
     (case snd st of
        None \<Rightarrow> st
      | Some cur \<Rightarrow>
          (updateFileContent (path cur) newCode (fst st),
           Some (FileNode (id_of cur) (name cur) (type cur) (path cur)
                   (Some newCode) (children cur) (other cur))))"

subsection \<open>The synchronization engine\<close>

text \<open>
  The debounced persist effect (lines 123-155). React runs the cleanup of the previous run
  of an effect, then the effect, whenever a dependency (\<^verbatim>\<open>files\<close>, \<^verbatim>\<open>projectId\<close>) changes; a
  timer set with \<^verbatim>\<open>setTimeout\<close> runs its callback once when its delay has passed, unless
  \<^verbatim>\<open>clearTimeout\<close> came first. Time is a number of milliseconds. The state below is what the
  effect and its callback read and write: the pending timer (its due time and the project
  identifier and tree its callback closed over), the requests that wait for their
  response, \<^verbatim>\<open>saveError\<close>, \<^verbatim>\<open>lastSaved\<close>, and the log of the \<^verbatim>\<open>PUT\<close> requests issued so far,
  oldest first. \<^verbatim>\<open>lastSaved\<close> has a second writer, the auto-save effect (lines 180-189),
  whose timer is part of the state too.
\<close>

text \<open>
  What the callback gets back. \<^verbatim>\<open>fetch\<close> either throws (the exception's message), or gives
  a response with \<^verbatim>\<open>res.ok\<close> and \<^verbatim>\<open>res.status\<close>. The body of a response is read only when
  the response is not ok: \<^verbatim>\<open>res.json()\<close> fails, or gives \<^verbatim>\<open>null\<close> (reading \<^verbatim>\<open>.error\<close> of it
  then throws a \<^verbatim>\<open>TypeError\<close>, whose message the engine chooses), or gives any other value,
  of which only the \<^verbatim>\<open>error\<close> property matters: absent or falsy and not a string
  (\<^verbatim>\<open>undefined\<close>, \<^verbatim>\<open>null\<close>, \<^verbatim>\<open>false\<close>, \<^verbatim>\<open>0\<close>), a string, or a truthy value that is not a string
  (given by its JSON text).
\<close>

datatype error_prop = NoError | ErrorString string | ErrorValue string

datatype body = Unparsable | ParsedNull string | Parsed error_prop

datatype outcome = Response bool nat body | Thrown string

text \<open>
  What \<^verbatim>\<open>setSaveError\<close> stores: a message, or the value of the \<^verbatim>\<open>error\<close> property when that
  is truthy and not a string.
\<close>

datatype save_error = Message string | Value string

text \<open>The decimal digits of \<^verbatim>\<open>res.status\<close> in the template string \<^verbatim>\<open>`HTTP ${res.status}`\<close>.\<close>

function show_nat :: "nat \<Rightarrow> string" where
  "show_nat n =
     (if n < 10 then [''0123456789'' ! n]
      else show_nat (n div 10) @ [''0123456789'' ! (n mod 10)])"
  by pat_completeness auto
termination
  by (relation "measure id") auto

declare show_nat.simps [simp del]

text \<open>The number that a string of decimal digits stands for.\<close>

definition digits_value :: "string \<Rightarrow> nat" where
  "digits_value ds = foldl (\<lambda>acc d. 10 * acc + (of_char d - 48)) 0 ds"

text \<open>
  \<^verbatim>\<open>errorData.error || `HTTP ${res.status}`\<close> (line 146), for a body that parsed to a value
  other than \<^verbatim>\<open>null\<close>; the empty string is falsy.
\<close>

definition errorMsg :: "nat \<Rightarrow> error_prop \<Rightarrow> save_error" where
  "errorMsg status e =
     (case e of
        NoError \<Rightarrow> Message (''HTTP '' @ show_nat status)
      | ErrorString x \<Rightarrow> (if x \<noteq> [] then Message x else Message (''HTTP '' @ show_nat status))
      | ErrorValue v \<Rightarrow> Value v)"

record sync =
  timer :: "(nat \<times> string \<times> FileNode list) option"
  inflight :: "(nat \<times> outcome) list"
  autoSaveTimer :: "nat option"
  saveError :: "save_error option"
  lastSaved :: "nat option"
  requests :: "(string \<times> FileNode list) list"

text \<open>
  One run of the effect at time \<open>now\<close>: the cleanup of the previous run clears its timer;
  then the two guards (a null or empty \<^verbatim>\<open>projectId\<close> is falsy, an empty tree is skipped);
  then the timer is set for 1200 ms later.
\<close>

definition persistEffect :: "nat \<Rightarrow> string option \<Rightarrow> FileNode list \<Rightarrow> sync \<Rightarrow> sync" where
  "persistEffect now projectId files s =
     (let cleared = s\<lparr>timer := None\<rparr>
      in (case projectId of
            None \<Rightarrow> cleared
          | Some pid \<Rightarrow>
              (if pid = [] then cleared
               else if files = [] then cleared
               else cleared\<lparr>timer := Some (now + 1200, pid, files)\<rparr>)))"

text \<open>
  The timer's callback is asynchronous. Its first part (lines 128-138) runs when the
  timer fires: the error is cleared, the tree is sanitized and the request is issued;
  the request then waits for its response, kept here with the outcome it will have and
  the time at which it will be complete.
\<close>

definition startSave :: "outcome \<Rightarrow> nat \<Rightarrow> string \<Rightarrow> FileNode list \<Rightarrow> sync \<Rightarrow> sync" where
  "startSave out finished pid files s =
     s\<lparr>saveError := None,
       requests := requests s @ [(pid, sanitizeFileTree files)],
       inflight := inflight s @ [(finished, out)]\<rparr>"

text \<open>
  Its second part (lines 140-152) runs when the response has arrived, in whatever state
  the component is by then; \<open>finished\<close> is what \<^verbatim>\<open>new Date()\<close> gives at that time. A body
  that does not parse stands for \<^verbatim>\<open>{ error: 'Unknown error' }\<close>; the \<^verbatim>\<open>TypeError\<close> of a
  \<^verbatim>\<open>null\<close> body and the exception of \<^verbatim>\<open>fetch\<close> end in the \<^verbatim>\<open>catch\<close> (line 150).
\<close>

definition finishSave :: "outcome \<Rightarrow> nat \<Rightarrow> sync \<Rightarrow> sync" where
  "finishSave out finished s =
     (case out of
        Response ok status b \<Rightarrow>
          (if ok then s\<lparr>lastSaved := Some finished, saveError := None\<rparr>
           else (case b of
                   Unparsable \<Rightarrow> s\<lparr>saveError := Some (Message ''Unknown error'')\<rparr>
                 | ParsedNull msg \<Rightarrow>
                     s\<lparr>saveError := Some (Message (if msg \<noteq> [] then msg else ''Network error''))\<rparr>
                 | Parsed e \<Rightarrow> s\<lparr>saveError := Some (errorMsg status e)\<rparr>))
      | Thrown msg \<Rightarrow>
          s\<lparr>saveError := Some (Message (if msg \<noteq> [] then msg else ''Network error''))\<rparr>)"

text \<open>
  The persist timer as time passes up to \<open>now\<close>: when it is due, the first part of its
  callback runs. \<open>net\<close> tells, for the time at which a request is issued, its outcome and
  the time of its completion. The response is a step of its own (\<open>ResponseArrives\<close> below).
\<close>

definition advance :: "(nat \<Rightarrow> outcome \<times> nat) \<Rightarrow> nat \<Rightarrow> sync \<Rightarrow> sync" where
  "advance net now s =
     (case timer s of
        None \<Rightarrow> s
      | Some (due, pid, files) \<Rightarrow>
          (if due \<le> now
           then startSave (fst (net due)) (snd (net due)) pid files (s\<lparr>timer := None\<rparr>)
           else s))"

text \<open>
  A series of tree changes, each with the time at which it happens and the tree it
  leaves: time passes up to the change, then the effect runs.
\<close>

fun changes ::
  "(nat \<Rightarrow> outcome \<times> nat) \<Rightarrow> string option \<Rightarrow> (nat \<times> FileNode list) list \<Rightarrow> sync \<Rightarrow> sync" where
  "changes net projectId [] s = s"
| "changes net projectId ((t, files) # rest) s =
     changes net projectId rest (persistEffect t projectId files (advance net t s))"

text \<open>Every change comes strictly less than 1200 ms after the one before it.\<close>

fun within_quiet :: "(nat \<times> FileNode list) list \<Rightarrow> bool" where
  "within_quiet [] = True"
| "within_quiet [e] = True"
| "within_quiet ((t1, f1) # (t2, f2) # rest) =
     (t1 \<le> t2 \<and> t2 < t1 + 1200 \<and> within_quiet ((t2, f2) # rest))"

text \<open>No timer is due at time \<open>t\<close>.\<close>

definition idle_at :: "nat \<Rightarrow> sync \<Rightarrow> bool" where
  "idle_at t s = (case timer s of None \<Rightarrow> True | Some (due, pid, files) \<Rightarrow> t < due)"

text \<open>
  The auto-save effect (lines 180-189), re-run when \<^verbatim>\<open>currentFile\<close> or the \<^verbatim>\<open>autoSave\<close>
  setting changes: with the setting on and a current file, a timer of 2000 ms whose
  callback sets \<^verbatim>\<open>lastSaved\<close> and nothing else.
\<close>

definition autoSaveEffect :: "nat \<Rightarrow> bool \<Rightarrow> bool \<Rightarrow> sync \<Rightarrow> sync" where
  "autoSaveEffect now autoSave hasCurrentFile s =
     (let cleared = s\<lparr>autoSaveTimer := None\<rparr>
      in (if autoSave \<and> hasCurrentFile then cleared\<lparr>autoSaveTimer := Some (now + 2000)\<rparr>
          else cleared))"

definition autoSaveFires :: "nat \<Rightarrow> sync \<Rightarrow> sync" where
  "autoSaveFires now s =
     (case autoSaveTimer s of
        None \<Rightarrow> s
      | Some due \<Rightarrow>
          (if due \<le> now then s\<lparr>autoSaveTimer := None, lastSaved := Some now\<rparr> else s))"

text \<open>
  Everything that can happen to the save state: time passes (the timers that are due
  fire), the response of one of the waiting requests arrives (they can arrive in any
  order), the tree or the project identifier changes, the current file or the auto-save
  setting changes.
\<close>

datatype event =
    TimePasses nat
  | ResponseArrives nat
  | FilesChanged nat "string option" "FileNode list"
  | CurrentFileChanged nat bool bool

fun step :: "(nat \<Rightarrow> outcome \<times> nat) \<Rightarrow> event \<Rightarrow> sync \<Rightarrow> sync" where
  "step net (TimePasses now) s = autoSaveFires now (advance net now s)"
| "step net (ResponseArrives i) s =
     (if i < length (inflight s)
      then finishSave (snd (inflight s ! i)) (fst (inflight s ! i))
             (s\<lparr>inflight := take i (inflight s) @ drop (Suc i) (inflight s)\<rparr>)
      else s)"
| "step net (FilesChanged now projectId files) s = persistEffect now projectId files s"
| "step net (CurrentFileChanged now autoSave hasCurrentFile) s =
     autoSaveEffect now autoSave hasCurrentFile s"

fun run :: "(nat \<Rightarrow> outcome \<times> nat) \<Rightarrow> event list \<Rightarrow> sync \<Rightarrow> sync" where
  "run net [] s = s"
| "run net (e # es) s = run net es (step net e s)"

text \<open>
  A qualifying tree change: one that passes both guards of the persist effect.
\<close>

fun qualifying :: "event \<Rightarrow> bool" where
  "qualifying (FilesChanged now (Some pid) files) = (pid \<noteq> [] \<and> files \<noteq> [])"
| "qualifying e = False"

subsection \<open>Nodes as objects of a store\<close>







section \<open>Example values\<close>

text \<open>
  A project with a folder \<^verbatim>\<open>/src\<close> holding \<^verbatim>\<open>/src/a.txt\<close>, and a top-level file whose
  object has no \<^verbatim>\<open>content\<close> and carries a property of the explorer's.
\<close>

definition file_a :: FileNode where
  "file_a = FileNode ''2'' ''a.txt'' File ''/src/a.txt'' (Some ''x'') None []"

definition folder_src :: FileNode where
  "folder_src = FileNode ''1'' ''src'' Folder ''/src'' None (Some [file_a]) []"

definition file_app :: FileNode where
  "file_app = FileNode ''3'' ''App.tsx'' File ''/App.tsx'' None None [(''expanded'', ''true'')]"

definition example_tree :: "FileNode list" where
  "example_tree = [folder_src, file_app]"

text \<open>
  The tree after the folder \<^verbatim>\<open>/src\<close> of the example was renamed to \<^verbatim>\<open>lib\<close>, a new folder
  \<^verbatim>\<open>src\<close> was created at the root, and a file \<^verbatim>\<open>a.txt\<close> was created in it.
\<close>

definition recreated_tree :: "FileNode list" where
  "recreated_tree =
     addToTree ''/src'' (newNode ''5'' ''/src'' ''a.txt'' File)
       (addToTree ''/'' (newNode ''4'' ''/'' ''src'' Folder)
          (renameInTree ''/src'' ''lib'' example_tree))"

text \<open>
  The tree and active document after, with \<^verbatim>\<open>/src/a.txt\<close> active, the folder \<^verbatim>\<open>/src\<close> was
  deleted, a folder \<^verbatim>\<open>src\<close> was created at the root and a folder \<^verbatim>\<open>a.txt\<close> was created in
  it.
\<close>

definition folder_at_active_path :: "FileNode list \<times> FileNode option" where
  "folder_at_active_path =
     handleFileCreate ''5'' ''/src'' ''a.txt'' Folder
       (handleFileCreate ''4'' ''/'' ''src'' Folder
          (handleFileDelete ''/src'' (example_tree, Some file_a)))"

lemmas example_defs = example_tree_def folder_src_def file_a_def file_app_def



text \<open>
  A store that answers every write with 200 after 50 ms, one that answers with 500 and
  no \<^verbatim>\<open>error\<close> in the body, one that answers with 403 and an \<^verbatim>\<open>error\<close> text.
\<close>

definition always_ok :: "nat \<Rightarrow> outcome \<times> nat" where
  "always_ok issued = (Response True 200 (Parsed NoError), issued + 50)"

definition always_500 :: "nat \<Rightarrow> outcome \<times> nat" where
  "always_500 issued = (Response False 500 (Parsed NoError), issued + 50)"

definition quota_403 :: "nat \<Rightarrow> outcome \<times> nat" where
  "quota_403 issued = (Response False 403 (Parsed (ErrorString ''quota exceeded'')), issued + 80)"

definition fresh_sync :: sync where
  "fresh_sync = \<lparr>timer = None, inflight = [], autoSaveTimer = None, saveError = None,
                 lastSaved = None, requests = []\<rparr>"

text \<open>
  Three changes 300 ms and 1100 ms apart; a state with a timer due at 1200, an error
  shown and a last-saved time of 7; and what may happen after a failed write without a
  qualifying tree change.
\<close>

definition burst :: "(nat \<times> FileNode list) list" where
  "burst = [(0, example_tree),
            (300, updateFileContent ''/src/a.txt'' ''y'' example_tree),
            (1400, updateFileContent ''/src/a.txt'' ''yz'' example_tree)]"

definition armed :: sync where
  "armed = \<lparr>timer = Some (1200, ''p1'', [file_app]), inflight = [], autoSaveTimer = None,
            saveError = Some (Message ''HTTP 500''), lastSaved = Some 7, requests = []\<rparr>"

definition quiet_events :: "event list" where
  "quiet_events =
     [TimePasses 9000, CurrentFileChanged 9100 True True, TimePasses 20000,
      FilesChanged 20001 None [file_a], FilesChanged 20002 (Some ''p1'') []]"

section \<open>Basic facts\<close>

declare nodes_of.simps [simp del]
declare sanitizeFileTree.simps [simp del]
declare updateFileContent.simps [simp del]
declare addToTree.simps [simp del]
declare deleteFromTree.simps [simp del]
declare renameInTree.simps [simp del]

lemma tree_induct [case_names Nil Cons]:
  assumes "P []"
    and "\<And>n ns. (\<And>cs. children n = Some cs \<Longrightarrow> P cs) \<Longrightarrow> P ns \<Longrightarrow> P (n # ns)"
  shows "P t"
proof (induction t rule: measure_induct_rule [where f = "size_list size"])
  case (less t)
  show ?case
  proof (cases t)
    case Nil
    then show ?thesis using assms(1) by simp
  next
    case (Cons n ns)
    have "P cs" if "children n = Some cs" for cs
    proof -
      have "size_list size cs < size n"
        using that by (rule size_children_node)
      then show ?thesis using Cons by (intro less) simp
    qed
    moreover have "P ns"
      using Cons by (intro less) simp
    ultimately show ?thesis
      using Cons assms(2) by blast
  qed
qed

lemma nodes_of_Nil [simp]: "nodes_of [] = []"
  by (simp add: nodes_of.simps)

lemma nodes_of_Cons [simp]:
  "nodes_of (n # ns) =
     n # (case children n of None \<Rightarrow> [] | Some cs \<Rightarrow> nodes_of cs) @ nodes_of ns"
  unfolding nodes_of.simps [of "n # ns"] nodes_of.simps [of ns] by simp

lemma sanitize_Nil [simp]: "sanitizeFileTree [] = []"
  by (simp add: sanitizeFileTree.simps)

lemma sanitize_Cons [simp]:
  "sanitizeFileTree (n # ns) =
     (if type n = File then
        FileNode (id_of n) (name n) (type n) (path n)
          (Some (case content n of None \<Rightarrow> [] | Some c \<Rightarrow> c)) None []
      else
        FileNode (id_of n) (name n) (type n) (path n)
          None (Some (case children n of None \<Rightarrow> [] | Some cs \<Rightarrow> sanitizeFileTree cs)) [])
     # sanitizeFileTree ns"
  unfolding sanitizeFileTree.simps [of "n # ns"] sanitizeFileTree.simps [of ns] by simp

lemma updateFileContent_Nil [simp]: "updateFileContent p c [] = []"
  by (simp add: updateFileContent.simps)

lemma updateFileContent_Cons [simp]:
  "updateFileContent p c (n # ns) =
     (if path n = p then
        FileNode (id_of n) (name n) (type n) (path n) (Some c) (children n) (other n)
      else (case children n of
              Some cs \<Rightarrow>
                FileNode (id_of n) (name n) (type n) (path n)
                  (content n) (Some (updateFileContent p c cs)) (other n)
            | None \<Rightarrow> n))
     # updateFileContent p c ns"
  unfolding updateFileContent.simps [of p c "n # ns"] updateFileContent.simps [of p c ns]
  by simp

lemma addToTree_root [simp]: "addToTree ''/'' new nodes = nodes @ [new]"
  by (simp add: addToTree.simps)

lemma addToTree_Nil [simp]: "parentPath \<noteq> ''/'' \<Longrightarrow> addToTree parentPath new [] = []"
  by (simp add: addToTree.simps)

lemma addToTree_Cons [simp]:
  "parentPath \<noteq> ''/'' \<Longrightarrow>
   addToTree parentPath new (n # ns) =
     (if path n = parentPath \<and> type n = Folder then
        FileNode (id_of n) (name n) (type n) (path n) (content n)
          (Some ((case children n of None \<Rightarrow> [] | Some cs \<Rightarrow> cs) @ [new])) (other n)
      else (case children n of
              Some cs \<Rightarrow>
                FileNode (id_of n) (name n) (type n) (path n)
                  (content n) (Some (addToTree parentPath new cs)) (other n)
            | None \<Rightarrow> n))
     # addToTree parentPath new ns"
  unfolding addToTree.simps [of parentPath new "n # ns"] addToTree.simps [of parentPath new ns]
  by simp

lemma deleteFromTree_Nil [simp]: "deleteFromTree p [] = []"
  by (simp add: deleteFromTree.simps)

lemma deleteFromTree_Cons [simp]:
  "deleteFromTree p (n # ns) =
     (if path n \<noteq> p then
        [FileNode (id_of n) (name n) (type n) (path n) (content n)
           (case children n of Some cs \<Rightarrow> Some (deleteFromTree p cs) | None \<Rightarrow> None)
           (other n)]
      else [])
     @ deleteFromTree p ns"
  unfolding deleteFromTree.simps [of p "n # ns"] deleteFromTree.simps [of p ns]
  by simp

lemma renameInTree_Nil [simp]: "renameInTree p nm [] = []"
  by (simp add: renameInTree.simps)

lemma renameInTree_Cons [simp]:
  "renameInTree p nm (n # ns) =
     (if path n = p then
        FileNode (id_of n) nm (type n) (renamedPath p nm) (content n) (children n) (other n)
      else (case children n of
              Some cs \<Rightarrow>
                FileNode (id_of n) (name n) (type n) (path n)
                  (content n) (Some (renameInTree p nm cs)) (other n)
            | None \<Rightarrow> n))
     # renameInTree p nm ns"
  unfolding renameInTree.simps [of p nm "n # ns"] renameInTree.simps [of p nm ns]
  by simp

lemma node_rebuild [simp]:
  "FileNode (id_of n) (name n) (type n) (path n) (content n) (children n) (other n) = n"
  by (cases n) simp

lemma findFileByPath_Some:
  "findFileByPath t q = Some x \<Longrightarrow> x \<in> set (nodes_of t) \<and> path x = q \<and> type x = File"
proof (induction t rule: tree_induct)
  case Nil
  then show ?case by simp
next
  case (Cons n ns)
  show ?case
  proof (cases "path n = q \<and> type n = File")
    case True
    then have "x = n" using Cons.prems by simp
    then show ?thesis using True by simp
  next
    case False
    show ?thesis
    proof (cases "children n")
      case None
      then show ?thesis using False Cons.prems Cons.IH(2) by auto
    next
      case (Some cs)
      show ?thesis
      proof (cases "findFileByPath cs q")
        case None
        then show ?thesis using False Some Cons.prems Cons.IH(2) by auto
      next
        case (Some found)
        then have "x = found"
          using False \<open>children n = Some cs\<close> Cons.prems by (auto split: if_splits)
        then show ?thesis
          using Cons.IH(1) [OF \<open>children n = Some cs\<close>] Some \<open>children n = Some cs\<close> by simp
      qed
    qed
  qed
qed

lemma nodes_of_append [simp]: "nodes_of (a @ b) = nodes_of a @ nodes_of b"
  by (induction a) simp_all

lemma in_nodes_of_Cons:
  "f \<in> set (nodes_of (n # ns)) \<longleftrightarrow>
     f = n \<or> (\<exists>cn. children n = Some cn \<and> f \<in> set (nodes_of cn)) \<or> f \<in> set (nodes_of ns)"
  by (cases "children n") auto

lemma nodes_of_children_subset:
  "f \<in> set (nodes_of t) \<Longrightarrow> children f = Some cs \<Longrightarrow> set (nodes_of cs) \<subseteq> set (nodes_of t)"
proof (induction t rule: tree_induct)
  case Nil
  then show ?case by simp
next
  case (Cons n ns)
  consider "f = n" | cn where "children n = Some cn" "f \<in> set (nodes_of cn)"
    | "f \<in> set (nodes_of ns)"
    using Cons.prems(1) unfolding in_nodes_of_Cons by blast
  then show ?case
  proof cases
    case 1
    then show ?thesis using Cons.prems(2) by auto
  next
    case 2
    then have "set (nodes_of cs) \<subseteq> set (nodes_of cn)"
      using Cons.IH(1) Cons.prems(2) by blast
    then show ?thesis using 2(1) by auto
  next
    case 3
    then have "set (nodes_of cs) \<subseteq> set (nodes_of ns)"
      using Cons.IH(2) Cons.prems(2) by blast
    then show ?thesis by auto
  qed
qed

lemma delete_paths_subset:
  "path ` set (nodes_of (deleteFromTree p t)) \<subseteq> path ` set (nodes_of t) - {p}"
proof (induction t rule: tree_induct)
  case Nil
  show ?case by simp
next
  case (Cons n ns)
  show ?case
  proof (cases "children n")
    case None
    then show ?thesis using Cons.IH(2) by auto
  next
    case (Some cs)
    then show ?thesis using Cons.IH(1) [OF Some] Cons.IH(2) by auto
  qed
qed

lemma distinct_paths_Cons:
  "distinct (map path (nodes_of (n # ns))) \<longleftrightarrow>
     path n \<notin> path ` set (nodes_of ns) \<and> distinct (map path (nodes_of ns)) \<and>
     (\<forall>cn. children n = Some cn \<longrightarrow>
        path n \<notin> path ` set (nodes_of cn) \<and> distinct (map path (nodes_of cn)) \<and>
        path ` set (nodes_of cn) \<inter> path ` set (nodes_of ns) = {})"
  by (cases "children n") auto

lemma delete_descendant_gone:
  assumes "distinct (map path (nodes_of t))"
    and "f \<in> set (nodes_of t)" and "path f = p" and "children f = Some cs"
    and "d \<in> set (nodes_of cs)"
  shows "path d \<notin> path ` set (nodes_of (deleteFromTree p t))"
  using assms(1,2)
proof (induction t rule: tree_induct)
  case Nil
  then show ?case by simp
next
  case (Cons n ns)
  have dn: "path n \<notin> path ` set (nodes_of ns)" "distinct (map path (nodes_of ns))"
    using Cons.prems(1) unfolding distinct_paths_Cons by blast+
  have dc: "path n \<notin> path ` set (nodes_of cn)" "distinct (map path (nodes_of cn))"
    "path ` set (nodes_of cn) \<inter> path ` set (nodes_of ns) = {}"
    if "children n = Some cn" for cn
    using Cons.prems(1) that unfolding distinct_paths_Cons by blast+
  have sub_ns: "path d \<notin> path ` set (nodes_of (deleteFromTree p ns))"
    if "path d \<notin> path ` set (nodes_of ns)"
    using that delete_paths_subset [of p ns] by blast
  consider "f = n" | cn where "children n = Some cn" "f \<in> set (nodes_of cn)"
    | "f \<in> set (nodes_of ns)"
    using Cons.prems(2) unfolding in_nodes_of_Cons by blast
  then show ?case
  proof cases
    case 1
    then have ch: "children n = Some cs" and pn: "path n = p"
      using assms(3,4) by simp_all
    have "path d \<in> path ` set (nodes_of cs)" using assms(5) by (rule imageI)
    then have "path d \<notin> path ` set (nodes_of ns)" using dc(3) [OF ch] by blast
    then show ?thesis using pn sub_ns by simp
  next
    case 2
    have "set (nodes_of cs) \<subseteq> set (nodes_of cn)"
      using nodes_of_children_subset [OF 2(2) assms(4)] .
    then have "d \<in> set (nodes_of cn)" using assms(5) by blast
    then have din: "path d \<in> path ` set (nodes_of cn)" by (rule imageI)
    have "path f \<in> path ` set (nodes_of cn)" using 2(2) by (rule imageI)
    then have np: "path n \<noteq> p" using dc(1) [OF 2(1)] assms(3) by auto
    have a: "path d \<noteq> path n" using din dc(1) [OF 2(1)] by auto
    have b: "path d \<notin> path ` set (nodes_of (deleteFromTree p cn))"
      using Cons.IH(1) [OF 2(1) dc(2) [OF 2(1)] 2(2)] .
    have c: "path d \<notin> path ` set (nodes_of (deleteFromTree p ns))"
      using din dc(3) [OF 2(1)] by (intro sub_ns) blast
    show ?thesis using np a b c 2(1) by (simp add: image_Un)
  next
    case 3
    have "set (nodes_of cs) \<subseteq> set (nodes_of ns)"
      using nodes_of_children_subset [OF 3 assms(4)] .
    then have "d \<in> set (nodes_of ns)" using assms(5) by blast
    then have din: "path d \<in> path ` set (nodes_of ns)" by (rule imageI)
    have "path f \<in> path ` set (nodes_of ns)" using 3 by (rule imageI)
    then have np: "path n \<noteq> p" using dn(1) assms(3) by auto
    have a: "path d \<noteq> path n" using din dn(1) by auto
    have c: "path d \<notin> path ` set (nodes_of (deleteFromTree p ns))"
      using Cons.IH(2) [OF dn(2) 3] .
    show ?thesis
    proof (cases "children n")
      case None
      then show ?thesis using np a c by simp
    next
      case (Some cn)
      have "path d \<notin> path ` set (nodes_of cn)" using din dc(3) [OF Some] by blast
      then have "path d \<notin> path ` set (nodes_of (deleteFromTree p cn))"
        using delete_paths_subset [of p cn] by blast
      then show ?thesis using np a c Some by (simp add: image_Un)
    qed
  qed
qed













subsection \<open>The synchronization engine\<close>

lemma advance_idle: "idle_at t s \<Longrightarrow> advance net t s = s"
  by (auto simp: idle_at_def advance_def split: option.splits)

lemma persistEffect_fields [simp]:
  "saveError (persistEffect t p f s) = saveError s"
  "lastSaved (persistEffect t p f s) = lastSaved s"
  "requests (persistEffect t p f s) = requests s"
  "inflight (persistEffect t p f s) = inflight s"
  "autoSaveTimer (persistEffect t p f s) = autoSaveTimer s"
  by (simp_all add: persistEffect_def Let_def split: option.splits)

lemma persistEffect_timer:
  "pid \<noteq> [] \<Longrightarrow>
   timer (persistEffect t (Some pid) f s) = (if f = [] then None else Some (t + 1200, pid, f))"
  by (simp add: persistEffect_def Let_def)

lemma changes_burst:
  assumes "pid \<noteq> []"
  shows "evs \<noteq> [] \<Longrightarrow> within_quiet evs \<Longrightarrow> idle_at (fst (hd evs)) s \<Longrightarrow>
    requests (changes net (Some pid) evs s) = requests s \<and>
    saveError (changes net (Some pid) evs s) = saveError s \<and>
    lastSaved (changes net (Some pid) evs s) = lastSaved s \<and>
    timer (changes net (Some pid) evs s) =
      (if snd (last evs) = [] then None
       else Some (fst (last evs) + 1200, pid, snd (last evs)))"
proof (induction evs arbitrary: s rule: within_quiet.induct)
  case 1
  then show ?case by simp
next
  case (2 e)
  obtain t f where e: "e = (t, f)" by (cases e)
  show ?case using 2 assms e by (simp add: advance_idle persistEffect_timer)
next
  case (3 t1 f1 t2 f2 rest)
  let ?s1 = "persistEffect t1 (Some pid) f1 (advance net t1 s)"
  have s1: "?s1 = persistEffect t1 (Some pid) f1 s"
    using 3(4) by (simp add: advance_idle)
  have idle: "idle_at (fst (hd ((t2, f2) # rest))) ?s1"
    using 3(3) assms unfolding s1 by (simp add: idle_at_def persistEffect_timer)
  have q: "within_quiet ((t2, f2) # rest)" using 3(3) by simp
  have "changes net (Some pid) ((t1, f1) # (t2, f2) # rest) s =
        changes net (Some pid) ((t2, f2) # rest) ?s1"
    by simp
  then show ?case
    using 3(1) [OF _ q idle] unfolding s1 by simp
qed

lemma within_quiet_take: "within_quiet evs \<Longrightarrow> within_quiet (take k evs)"
proof (induction evs arbitrary: k rule: within_quiet.induct)
  case 1
  show ?case by simp
next
  case (2 e)
  show ?case by (cases k) simp_all
next
  case (3 t1 f1 t2 f2 rest)
  show ?case
  proof (cases k)
    case 0
    then show ?thesis by simp
  next
    case (Suc j)
    have "within_quiet (take j ((t2, f2) # rest))" using 3 by simp
    then show ?thesis using 3(2) Suc by (cases j) simp_all
  qed
qed

lemma finishSave_frame [simp]:
  "timer (finishSave out finished s) = timer s"
  "requests (finishSave out finished s) = requests s"
  "inflight (finishSave out finished s) = inflight s"
  "autoSaveTimer (finishSave out finished s) = autoSaveTimer s"
  by (simp_all add: finishSave_def split: outcome.splits body.splits)

lemma autoSave_frame [simp]:
  "timer (autoSaveFires now s) = timer s"
  "requests (autoSaveFires now s) = requests s"
  "timer (autoSaveEffect now a h s) = timer s"
  "requests (autoSaveEffect now a h s) = requests s"
  by (simp_all add: autoSaveFires_def autoSaveEffect_def Let_def split: option.splits)

lemma step_no_retry:
  assumes "timer s = None" and "\<not> qualifying e"
  shows "timer (step net e s) = None \<and> requests (step net e s) = requests s"
proof (cases e)
  case (TimePasses now)
  then show ?thesis using assms(1) by (simp add: advance_def)
next
  case (ResponseArrives i)
  then show ?thesis using assms(1) by simp
next
  case (FilesChanged now projectId files)
  show ?thesis
  proof (cases projectId)
    case None
    then show ?thesis using FilesChanged by (simp add: persistEffect_def Let_def)
  next
    case (Some pid)
    then have "pid = [] \<or> files = []" using assms(2) FilesChanged by simp
    then show ?thesis using FilesChanged Some by (auto simp: persistEffect_def Let_def)
  qed
next
  case (CurrentFileChanged now autoSave hasCurrentFile)
  then show ?thesis using assms(1) by simp
qed

lemma run_no_retry:
  "timer s = None \<Longrightarrow> list_all (\<lambda>e. \<not> qualifying e) es \<Longrightarrow>
   timer (run net es s) = None \<and> requests (run net es s) = requests s"
proof (induction es arbitrary: s)
  case Nil
  then show ?case by simp
next
  case (Cons e es)
  have e: "timer (step net e s) = None \<and> requests (step net e s) = requests s"
    using Cons.prems by (intro step_no_retry) simp_all
  have "timer (run net es (step net e s)) = None \<and>
        requests (run net es (step net e s)) = requests (step net e s)"
    using Cons.prems e by (intro Cons.IH) simp_all
  then show ?case using e by simp
qed

lemma digit_value: "d < 10 \<Longrightarrow> of_char (''0123456789'' ! d) - 48 = (d::nat)"
proof -
  assume "d < 10"
  then have "d \<in> {0, 1, 2, 3, 4, 5, 6, 7, 8, 9}" by auto
  then show ?thesis by (elim insertE emptyE) simp_all
qed

lemma digit_is_digit: "d < 10 \<Longrightarrow> ''0123456789'' ! d \<in> set ''0123456789''"
  by (rule nth_mem) simp

lemma digits_value_snoc:
  "digits_value (ds @ [d]) = 10 * digits_value ds + (of_char d - 48)"
  by (simp add: digits_value_def)

lemma digits_value_show_nat: "digits_value (show_nat n) = n"
proof (induction n rule: show_nat.induct)
  case (1 n)
  show ?case
  proof (cases "n < 10")
    case True
    then show ?thesis
      using digit_value [of n] by (simp add: show_nat.simps [of n] digits_value_def)
  next
    case False
    have "digits_value (show_nat n) =
        10 * digits_value (show_nat (n div 10)) + (of_char (''0123456789'' ! (n mod 10)) - 48)"
      using False by (simp add: show_nat.simps [of n] digits_value_snoc)
    then show ?thesis
      using 1 [OF False] digit_value [of "n mod 10"] by simp
  qed
qed

lemma digit_not_zero: "0 < d \<Longrightarrow> d < 10 \<Longrightarrow> ''0123456789'' ! d \<noteq> CHR ''0''"
proof -
  assume "0 < d" and "d < 10"
  then have "d \<in> {1, 2, 3, 4, 5, 6, 7, 8, 9}" by auto
  then show ?thesis by (elim insertE emptyE) simp_all
qed

lemma show_nat_nonempty: "show_nat n \<noteq> []"
  by (cases "n < 10") (simp_all add: show_nat.simps [of n])

lemma show_nat_leading: "0 < n \<Longrightarrow> hd (show_nat n) \<noteq> CHR ''0''"
proof (induction n rule: show_nat.induct)
  case (1 n)
  show ?case
  proof (cases "n < 10")
    case True
    then show ?thesis
      using digit_not_zero [of n] "1.prems" by (simp add: show_nat.simps [of n])
  next
    case False
    then have "0 < n div 10" by simp
    then have "hd (show_nat (n div 10)) \<noteq> CHR ''0''"
      using "1.IH" [OF False] by simp
    then show ?thesis
      using False show_nat_nonempty [of "n div 10"] by (simp add: show_nat.simps [of n])
  qed
qed

lemma show_nat_canonical: "show_nat n = ''0'' \<or> hd (show_nat n) \<noteq> CHR ''0''"
proof (cases "n = 0")
  case True
  then show ?thesis by (simp add: show_nat.simps [of 0])
next
  case False
  then show ?thesis using show_nat_leading [of n] by simp
qed

lemma show_nat_digits: "set (show_nat n) \<subseteq> set ''0123456789''"
proof (induction n rule: show_nat.induct)
  case (1 n)
  show ?case
  proof (cases "n < 10")
    case True
    then show ?thesis
      using digit_is_digit [of n] by (simp add: show_nat.simps [of n])
  next
    case False
    have "set (show_nat n) = set (show_nat (n div 10)) \<union> {''0123456789'' ! (n mod 10)}"
      using False by (simp add: show_nat.simps [of n])
    then show ?thesis
      using 1 [OF False] digit_is_digit [of "n mod 10"] by simp
  qed
qed

subsection \<open>The store\<close>







lemma find_append_first:
  "List.find P (xs @ ys) = (case List.find P xs of None \<Rightarrow> List.find P ys | Some x \<Rightarrow> Some x)"
  by (induction xs) simp_all

lemma node_at_Nil [simp]: "node_at [] p = None"
  by (simp add: node_at_def)

lemma node_at_Cons:
  "node_at (m # ms) p =
     (if path m = p then Some m
      else (case (case children m of None \<Rightarrow> None | Some cs \<Rightarrow> node_at cs p) of
              Some x \<Rightarrow> Some x
            | None \<Rightarrow> node_at ms p))"
  by (cases "children m") (simp_all add: node_at_def find_append_first split: option.splits)




section \<open>The active document after a tree change\<close>

text \<open>
  C1, as the spec states it: when the active document's path no longer resolves to a file
  of the tree, the reconciliation pass sets the active document to none. The effect has no
  such branch. With \<^verbatim>\<open>/src/a.txt\<close> active, deleting the folder \<^verbatim>\<open>/src\<close> leaves the active
  document alone (its path is not the deleted one), the path no longer resolves, and the
  reconciliation pass keeps the document.
\<close>

theorem reconcile_clears_counterexample:
  "handleFileDelete ''/src'' (example_tree, Some file_a) = ([file_app], Some file_a) \<and>
   findFileByPath [file_app] (path file_a) = None \<and>
   reconcile [file_app] (Some file_a) = Some file_a"
  by (simp add: reconcile_def handleFileDelete_def example_defs)

text \<open>
  C1, amended: when the active document's path does not resolve to a file node of the
  tree, the reconciliation pass leaves the active document as it was.
\<close>

theorem reconcile_keeps_unresolved:
  "findFileByPath files (path cur) = None \<Longrightarrow> reconcile files (Some cur) = Some cur"
  by (simp add: reconcile_def)

theorem reconcile_keeps_unresolved_witness:
  "renameInTree ''/src/a.txt'' ''b.txt'' example_tree =
     [FileNode ''1'' ''src'' Folder ''/src'' None
        (Some [FileNode ''2'' ''b.txt'' File ''/src/b.txt'' (Some ''x'') None []]) [],
      file_app] \<and>
   findFileByPath (renameInTree ''/src/a.txt'' ''b.txt'' example_tree) (path file_a) = None \<and>
   reconcile (renameInTree ''/src/a.txt'' ''b.txt'' example_tree) (Some file_a) = Some file_a"
proof -
  have e: "renameInTree ''/src/a.txt'' ''b.txt'' example_tree =
     [FileNode ''1'' ''src'' Folder ''/src'' None
        (Some [FileNode ''2'' ''b.txt'' File ''/src/b.txt'' (Some ''x'') None []]) [],
      file_app]"
    by (simp add: example_defs renamedPath_def)
  have h: "findFileByPath (renameInTree ''/src/a.txt'' ''b.txt'' example_tree) (path file_a) = None"
    unfolding e by (simp add: example_defs)
  show ?thesis
    using h e reconcile_keeps_unresolved [OF h] by simp
qed

section \<open>Sanitizing\<close>

text \<open>
  C6: every node of \<^verbatim>\<open>sanitize(tree)\<close> carries the identifier, name, type and path of the
  node it comes from, plus the content on a file (the original one, or the empty string
  when it was undefined) or the children on a folder (sanitized in turn, or the empty
  sequence when they were undefined), and nothing else. The first half relates every
  level of the result to the input; the second half is the shape of every node at any
  depth.
\<close>

theorem sanitizeFileTree_fields:
  "list_all2 (\<lambda>s n.
       id_of s = id_of n \<and> name s = name n \<and> type s = type n \<and> path s = path n \<and>
       other s = [] \<and>
       (type n = File \<longrightarrow>
          content s = Some (case content n of None \<Rightarrow> [] | Some c \<Rightarrow> c) \<and>
          children s = None) \<and>
       (type n = Folder \<longrightarrow>
          content s = None \<and>
          children s =
            Some (case children n of None \<Rightarrow> [] | Some cs \<Rightarrow> sanitizeFileTree cs)))
     (sanitizeFileTree tree) tree \<and>
   (\<forall>s \<in> set (nodes_of (sanitizeFileTree tree)).
       other s = [] \<and>
       (type s = File \<longrightarrow> content s \<noteq> None \<and> children s = None) \<and>
       (type s = Folder \<longrightarrow> content s = None \<and> children s \<noteq> None))"
proof
  show "list_all2 (\<lambda>s n.
       id_of s = id_of n \<and> name s = name n \<and> type s = type n \<and> path s = path n \<and>
       other s = [] \<and>
       (type n = File \<longrightarrow>
          content s = Some (case content n of None \<Rightarrow> [] | Some c \<Rightarrow> c) \<and>
          children s = None) \<and>
       (type n = Folder \<longrightarrow>
          content s = None \<and>
          children s =
            Some (case children n of None \<Rightarrow> [] | Some cs \<Rightarrow> sanitizeFileTree cs)))
     (sanitizeFileTree tree) tree"
  proof (induction tree)
    case Nil
    show ?case by simp
  next
    case (Cons n ns)
    then show ?case by (cases "type n") simp_all
  qed
next
  show "\<forall>s \<in> set (nodes_of (sanitizeFileTree tree)).
       other s = [] \<and>
       (type s = File \<longrightarrow> content s \<noteq> None \<and> children s = None) \<and>
       (type s = Folder \<longrightarrow> content s = None \<and> children s \<noteq> None)"
  proof (induction tree rule: tree_induct)
    case Nil
    show ?case by simp
  next
    case (Cons n ns)
    show ?case
    proof (cases "type n")
      case File
      then show ?thesis using Cons.IH(2) by simp
    next
      case Folder
      show ?thesis
      proof (cases "children n")
        case None
        then show ?thesis using Folder Cons.IH(2) by simp
      next
        case (Some cs)
        then show ?thesis using Folder Cons.IH(1) [OF Some] Cons.IH(2) by auto
      qed
    qed
  qed
qed

theorem sanitizeFileTree_fields_witness:
  "sanitizeFileTree example_tree =
     [FileNode ''1'' ''src'' Folder ''/src'' None
        (Some [FileNode ''2'' ''a.txt'' File ''/src/a.txt'' (Some ''x'') None []]) [],
      FileNode ''3'' ''App.tsx'' File ''/App.tsx'' (Some []) None []] \<and>
   list_all (\<lambda>s. other s = [] \<and> (content s = None) = (type s = Folder) \<and>
                 (children s = None) = (type s = File))
     (nodes_of (sanitizeFileTree example_tree))"
proof -
  have e: "sanitizeFileTree example_tree =
     [FileNode ''1'' ''src'' Folder ''/src'' None
        (Some [FileNode ''2'' ''a.txt'' File ''/src/a.txt'' (Some ''x'') None []]) [],
      FileNode ''3'' ''App.tsx'' File ''/App.tsx'' (Some []) None []]"
    by (simp add: example_defs)
  show ?thesis
    using sanitizeFileTree_fields [of example_tree] unfolding e by simp
qed

section \<open>Creating under a parent that is not there\<close>

text \<open>
  C7: when \<^verbatim>\<open>parentPath\<close> is not the root and no folder of the tree has that path,
  \<^verbatim>\<open>insert(tree, parentPath, newNode)\<close> returns a tree equal to its input.
\<close>

theorem addToTree_missing_parent:
  assumes "parentPath \<noteq> ''/''"
    and "\<forall>n \<in> set (nodes_of tree). \<not> (path n = parentPath \<and> type n = Folder)"
  shows "addToTree parentPath new tree = tree"
  using assms(2)
proof (induction tree rule: tree_induct)
  case Nil
  show ?case using assms(1) by simp
next
  case (Cons n ns)
  have here: "\<not> (path n = parentPath \<and> type n = Folder)"
    using Cons.prems by simp
  have rest: "addToTree parentPath new ns = ns"
    using Cons.prems by (intro Cons.IH(2)) simp
  show ?case
  proof (cases "children n")
    case None
    then show ?thesis using assms(1) here rest by auto
  next
    case (Some cs)
    have "addToTree parentPath new cs = cs"
      using Cons.prems Some by (intro Cons.IH(1) [OF Some]) simp
    then show ?thesis using assms(1) here rest Some
      by (cases n) auto
  qed
qed

theorem addToTree_missing_parent_witness:
  "''/lib'' \<noteq> ''/'' \<and>
   list_all (\<lambda>n. \<not> (path n = ''/lib'' \<and> type n = Folder)) (nodes_of example_tree) \<and>
   addToTree ''/lib'' (newNode ''4'' ''/lib'' ''b.txt'' File) example_tree = example_tree"
proof -
  have h1: "''/lib'' \<noteq> ''/''" by simp
  have h2: "\<forall>n \<in> set (nodes_of example_tree). \<not> (path n = ''/lib'' \<and> type n = Folder)"
    by (simp add: example_defs)
  show ?thesis
    using h1 h2 addToTree_missing_parent [OF h1 h2, of "newNode ''4'' ''/lib'' ''b.txt'' File"]
    by (simp add: list_all_iff)
qed

section \<open>Deleting a folder\<close>

text \<open>
  C5, as the spec states it: for every tree, after \<^verbatim>\<open>remove(tree, p)\<close> no path of a
  descendant of the folder at \<open>p\<close> resolves. The operations do not keep paths unique: after
  a folder was renamed (its file keeps the path \<^verbatim>\<open>/src/a.txt\<close>) and a folder \<^verbatim>\<open>/src\<close> with a
  file \<^verbatim>\<open>/src/a.txt\<close> was created again, deleting \<^verbatim>\<open>/src\<close> leaves a file that still answers to
  \<^verbatim>\<open>/src/a.txt\<close>.
\<close>

theorem deleteFromTree_cascade_counterexample:
  "recreated_tree =
     [FileNode ''1'' ''lib'' Folder ''/lib'' None (Some [file_a]) [],
      file_app,
      FileNode ''4'' ''src'' Folder ''/src'' None
        (Some [FileNode ''5'' ''a.txt'' File ''/src/a.txt'' (Some []) None []]) []] \<and>
   deleteFromTree ''/src'' recreated_tree =
     [FileNode ''1'' ''lib'' Folder ''/lib'' None (Some [file_a]) [], file_app] \<and>
   findFileByPath (deleteFromTree ''/src'' recreated_tree) ''/src/a.txt'' = Some file_a"
  by (simp add: recreated_tree_def newNode_def example_defs renamedPath_def)

text \<open>
  C5, amended: in a tree whose paths are unique (the invariant of the data model), when a
  folder stands at path \<open>p\<close>, after \<^verbatim>\<open>remove(tree, p)\<close> no path of a descendant of that
  folder resolves: \<^verbatim>\<open>findFileByPath\<close> returns nothing for it, and indeed no node of the new
  tree has that path, nor the path \<open>p\<close> itself. The whole subtree is gone.
\<close>

theorem deleteFromTree_cascade:
  assumes "unique_paths tree"
    and "f \<in> set (nodes_of tree)" and "path f = p" and "type f = Folder"
    and "children f = Some cs" and "d \<in> set (nodes_of cs)"
  shows "findFileByPath (deleteFromTree p tree) (path d) = None \<and>
         findFileByPath (deleteFromTree p tree) p = None \<and>
         path d \<notin> path ` set (nodes_of (deleteFromTree p tree)) \<and>
         p \<notin> path ` set (nodes_of (deleteFromTree p tree))"
proof -
  have gone: "q \<notin> path ` set (nodes_of (deleteFromTree p tree)) \<Longrightarrow>
      findFileByPath (deleteFromTree p tree) q = None" for q
    using findFileByPath_Some [of "deleteFromTree p tree" q]
    by (cases "findFileByPath (deleteFromTree p tree) q") auto
  have a: "path d \<notin> path ` set (nodes_of (deleteFromTree p tree))"
    using assms(1) unfolding unique_paths_def
    by (rule delete_descendant_gone [OF _ assms(2,3,5,6)])
  have b: "p \<notin> path ` set (nodes_of (deleteFromTree p tree))"
    using delete_paths_subset [of p tree] by blast
  show ?thesis using a b gone by blast
qed

theorem deleteFromTree_cascade_witness:
  "unique_paths example_tree \<and> folder_src \<in> set (nodes_of example_tree) \<and>
   type folder_src = Folder \<and> children folder_src = Some [file_a] \<and>
   deleteFromTree ''/src'' example_tree = [file_app] \<and>
   findFileByPath example_tree ''/src/a.txt'' = Some file_a \<and>
   findFileByPath (deleteFromTree ''/src'' example_tree) ''/src/a.txt'' = None"
proof -
  have h1: "unique_paths example_tree"
    by (simp add: unique_paths_def example_defs)
  have h2: "folder_src \<in> set (nodes_of example_tree)"
    by (simp add: example_defs)
  have h3: "path folder_src = ''/src''" and h4: "type folder_src = Folder"
    and h5: "children folder_src = Some [file_a]"
    by (simp_all add: example_defs)
  have h6: "file_a \<in> set (nodes_of [file_a])"
    by simp
  have e: "path file_a = ''/src/a.txt''"
    by (simp add: example_defs)
  have k: "deleteFromTree ''/src'' example_tree = [file_app]"
    by (simp add: example_defs)
  have l: "findFileByPath example_tree ''/src/a.txt'' = Some file_a"
    by (simp add: example_defs)
  show ?thesis
    using deleteFromTree_cascade [OF h1 h2 h3 h4 h5 h6] h1 h2 h4 h5 l
    unfolding e k by simp
qed

section \<open>Updating content\<close>

text \<open>
  C2: \<^verbatim>\<open>updateContent(tree, path, newContent)\<close> replaces content only on a file node at the
  path, and returns the tree unchanged when the path is absent or resolves to a folder.
  The source means the same (its comment at line 221 reads "Update the current file's
  content", and \<^verbatim>\<open>findFileByPath\<close> tests the type), and for an absent path it holds
  (\<open>update_absent\<close> above). But the callback of \<^verbatim>\<open>updateFileContent\<close> compares the path
  alone. In the state \<open>folder_at_active_path\<close> the active document is the file
  \<^verbatim>\<open>/src/a.txt\<close> (the reconciliation pass keeps it), its path resolves to a folder of the
  tree and to no file, and a change of the text in the editor gives that folder a
  content: the tree is not returned unchanged.
\<close>

theorem updateFileContent_writes_folder:
  "folder_at_active_path =
     ([file_app,
       FileNode ''4'' ''src'' Folder ''/src'' None
         (Some [FileNode ''5'' ''a.txt'' Folder ''/src/a.txt'' None (Some []) []]) []],
      Some file_a) \<and>
   path file_a = ''/src/a.txt'' \<and> type file_a = File \<and>
   reconcile (fst folder_at_active_path) (snd folder_at_active_path) = Some file_a \<and>
   node_at (fst folder_at_active_path) ''/src/a.txt'' =
     Some (FileNode ''5'' ''a.txt'' Folder ''/src/a.txt'' None (Some []) []) \<and>
   findFileByPath (fst folder_at_active_path) ''/src/a.txt'' = None \<and>
   fst (handleCodeChange ''y'' folder_at_active_path) =
     [file_app,
      FileNode ''4'' ''src'' Folder ''/src'' None
        (Some [FileNode ''5'' ''a.txt'' Folder ''/src/a.txt'' (Some ''y'') (Some []) []]) []] \<and>
   updateFileContent ''/src/a.txt'' ''y'' (fst folder_at_active_path) \<noteq>
     fst folder_at_active_path"
proof -
  have e: "folder_at_active_path =
     ([file_app,
       FileNode ''4'' ''src'' Folder ''/src'' None
         (Some [FileNode ''5'' ''a.txt'' Folder ''/src/a.txt'' None (Some []) []]) []],
      Some file_a)"
    by (simp add: folder_at_active_path_def handleFileCreate_def handleFileDelete_def
          newNode_def example_defs)
  show ?thesis
    unfolding e by (simp add: handleCodeChange_def reconcile_def node_at_Cons example_defs)
qed

section \<open>Renaming a folder\<close>




section \<open>Debounced persistence\<close>

text \<open>
  C4, as the spec states it: every series of changes within the quiet period, with a
  project identifier bound, gives exactly one write. The effect returns before setting a
  timer when the tree is empty: two changes 500 ms apart, the second deleting the only
  file, give no write at all, however long one waits.
\<close>

theorem debounce_empty_counterexample:
  "within_quiet [(0, [file_app]), (500, deleteFromTree ''/App.tsx'' [file_app])] \<and>
   requests (advance always_ok 5000
     (changes always_ok (Some ''p1'')
        [(0, [file_app]), (500, deleteFromTree ''/App.tsx'' [file_app])] fresh_sync)) = []"
  by (simp add: fresh_sync_def advance_def persistEffect_def example_defs)

text \<open>
  C4, amended: with a bound (non-empty) project identifier, for every series of one or
  more tree changes, each strictly less than 1200 ms after the one before, that starts
  when no timer is due and ends with a tree that is not empty: once 1200 ms have
  passed after the last change exactly one write has been issued, with the sanitized
  tree of the last change as payload, and no timer is left; before that no write has
  been issued; and after each change of the series the only timer is the one of that
  change, due 1200 ms after it (none when that change left the tree empty).
\<close>

theorem debounce_collapse:
  assumes "pid \<noteq> []" and "evs \<noteq> []" and "within_quiet evs"
    and "idle_at (fst (hd evs)) s" and "snd (last evs) \<noteq> []"
    and "fst (last evs) + 1200 \<le> T"
  shows "requests (advance net T (changes net (Some pid) evs s)) =
           requests s @ [(pid, sanitizeFileTree (snd (last evs)))] \<and>
         timer (advance net T (changes net (Some pid) evs s)) = None \<and>
         (\<forall>T'. T' < fst (last evs) + 1200 \<longrightarrow>
            requests (advance net T' (changes net (Some pid) evs s)) = requests s) \<and>
         (\<forall>k. 0 < k \<and> k \<le> length evs \<longrightarrow>
            timer (changes net (Some pid) (take k evs) s) =
              (if snd (evs ! (k - 1)) = [] then None
               else Some (fst (evs ! (k - 1)) + 1200, pid, snd (evs ! (k - 1)))))"
proof -
  let ?s = "changes net (Some pid) evs s"
  have b: "requests ?s = requests s"
    "timer ?s = Some (fst (last evs) + 1200, pid, snd (last evs))"
    using changes_burst [OF assms(1,2,3,4), of net] assms(5) by simp_all
  have one: "requests (advance net T ?s) =
      requests s @ [(pid, sanitizeFileTree (snd (last evs)))]"
    using b assms(6) by (simp add: advance_def startSave_def)
  have none: "timer (advance net T ?s) = None"
    using b assms(6) by (simp add: advance_def startSave_def)
  have early: "requests (advance net T' ?s) = requests s" if "T' < fst (last evs) + 1200" for T'
    using b that by (simp add: advance_def)
  have rearm: "timer (changes net (Some pid) (take k evs) s) =
              (if snd (evs ! (k - 1)) = [] then None
               else Some (fst (evs ! (k - 1)) + 1200, pid, snd (evs ! (k - 1))))"
    if "0 < k" "k \<le> length evs" for k
  proof -
    have ne: "take k evs \<noteq> []" using that assms(2) by simp
    have hd: "hd (take k evs) = hd evs" using that by (cases evs; cases k) simp_all
    have "last (take k evs) = take k evs ! (k - 1)"
      using that last_conv_nth [OF ne] by (simp add: min_def)
    then have la: "last (take k evs) = evs ! (k - 1)"
      using that by simp
    show ?thesis
      using changes_burst [OF assms(1) ne within_quiet_take [OF assms(3)], where s = s and net = net]
        assms(4)
      unfolding hd la by simp
  qed
  show ?thesis using one none early rearm by blast
qed

theorem debounce_collapse_witness:
  "''p1'' \<noteq> [] \<and> burst \<noteq> [] \<and> within_quiet burst \<and> idle_at (fst (hd burst)) fresh_sync \<and>
   snd (last burst) \<noteq> [] \<and> fst (last burst) + 1200 \<le> 2600 \<and>
   requests (advance always_ok 2600 (changes always_ok (Some ''p1'') burst fresh_sync)) =
     [(''p1'', sanitizeFileTree (updateFileContent ''/src/a.txt'' ''yz'' example_tree))] \<and>
   requests (advance always_ok 2599 (changes always_ok (Some ''p1'') burst fresh_sync)) = []"
proof -
  have h1: "''p1'' \<noteq> []" by simp
  have h2: "burst \<noteq> []" by (simp add: burst_def)
  have h3: "within_quiet burst" by (simp add: burst_def)
  have h4: "idle_at (fst (hd burst)) fresh_sync" by (simp add: idle_at_def fresh_sync_def)
  have h5: "snd (last burst) \<noteq> []" by (simp add: burst_def example_defs)
  have h6: "fst (last burst) + 1200 \<le> 2600" by (simp add: burst_def)
  have e: "snd (last burst) = updateFileContent ''/src/a.txt'' ''yz'' example_tree"
    "fst (last burst) = 1400" "requests fresh_sync = []"
    by (simp_all add: burst_def fresh_sync_def)
  show ?thesis
    using debounce_collapse [OF h1 h2 h3 h4 h5 h6, of always_ok] h2 h3 h4 h5
    unfolding e by simp
qed

section \<open>The save state after a write attempt\<close>

text \<open>
  C9: when the timer fires, one request is issued and waits for its response; the error
  is cleared and the last-saved time is left alone. When the response of a waiting
  request arrives, in whatever state the component is by then: on a successful response
  the error is cleared and the completion time recorded; on a failed one the last-saved
  time is left alone and the error is set to the failure message, which is
  \<^verbatim>\<open>Unknown error\<close> for a body that does not parse, the body's \<^verbatim>\<open>error\<close> when that is
  truthy, \<^verbatim>\<open>HTTP\<close> and the decimal status otherwise (\<open>show_nat\<close> gives the decimal digits
  of a number, without leading zeros), and the exception's message (or \<^verbatim>\<open>Network error\<close>
  when it has none) when \<^verbatim>\<open>fetch\<close> or the reading of the body throws. The response sets
  no timer and issues no request; with no timer pending, no series of events without a
  qualifying tree change (time passing, responses, changes of the current file, tree
  changes that fail a guard) sets one or issues a request; a qualifying tree change sets
  the timer, due 1200 ms later.
\<close>

theorem write_attempt_transitions:
  assumes "timer s = Some (due, pid, files)" and "due \<le> now"
  shows "requests (advance net now s) = requests s @ [(pid, sanitizeFileTree files)] \<and>
    inflight (advance net now s) = inflight s @ [(snd (net due), fst (net due))] \<and>
    saveError (advance net now s) = None \<and>
    lastSaved (advance net now s) = lastSaved s \<and>
    timer (advance net now s) = None \<and>
    (\<forall>s' i finished out.
       i < length (inflight s') \<and> inflight s' ! i = (finished, out) \<longrightarrow>
         timer (step net (ResponseArrives i) s') = timer s' \<and>
         requests (step net (ResponseArrives i) s') = requests s' \<and>
         inflight (step net (ResponseArrives i) s') =
           take i (inflight s') @ drop (Suc i) (inflight s') \<and>
         (case out of
            Response ok status b \<Rightarrow>
              (if ok then
                 saveError (step net (ResponseArrives i) s') = None \<and>
                 lastSaved (step net (ResponseArrives i) s') = Some finished
               else
                 lastSaved (step net (ResponseArrives i) s') = lastSaved s' \<and>
                 saveError (step net (ResponseArrives i) s') =
                   Some (case b of
                           Unparsable \<Rightarrow> Message ''Unknown error''
                         | ParsedNull msg \<Rightarrow>
                             Message (if msg \<noteq> [] then msg else ''Network error'')
                         | Parsed NoError \<Rightarrow> Message (''HTTP '' @ show_nat status)
                         | Parsed (ErrorString x) \<Rightarrow>
                             Message (if x \<noteq> [] then x else ''HTTP '' @ show_nat status)
                         | Parsed (ErrorValue v) \<Rightarrow> Value v))
          | Thrown msg \<Rightarrow>
              lastSaved (step net (ResponseArrives i) s') = lastSaved s' \<and>
              saveError (step net (ResponseArrives i) s') =
                Some (Message (if msg \<noteq> [] then msg else ''Network error'')))) \<and>
    (\<forall>status. digits_value (show_nat status) = status \<and>
       set (show_nat status) \<subseteq> set ''0123456789'' \<and>
       (show_nat status = ''0'' \<or> hd (show_nat status) \<noteq> CHR ''0'')) \<and>
    (\<forall>s' es. timer s' = None \<and> list_all (\<lambda>e. \<not> qualifying e) es \<longrightarrow>
       timer (run net es s') = None \<and> requests (run net es s') = requests s') \<and>
    (\<forall>s' t p f. p \<noteq> [] \<and> f \<noteq> [] \<longrightarrow>
       timer (step net (FilesChanged t (Some p) f) s') = Some (t + 1200, p, f))"
proof -
  have fired: "advance net now s =
      startSave (fst (net due)) (snd (net due)) pid files (s\<lparr>timer := None\<rparr>)"
    using assms by (simp add: advance_def)
  have start: "requests (advance net now s) = requests s @ [(pid, sanitizeFileTree files)]"
    "inflight (advance net now s) = inflight s @ [(snd (net due), fst (net due))]"
    "saveError (advance net now s) = None"
    "lastSaved (advance net now s) = lastSaved s"
    "timer (advance net now s) = None"
    unfolding fired by (simp_all add: startSave_def)
  have arrive: "timer (step net (ResponseArrives i) s') = timer s' \<and>
         requests (step net (ResponseArrives i) s') = requests s' \<and>
         inflight (step net (ResponseArrives i) s') =
           take i (inflight s') @ drop (Suc i) (inflight s') \<and>
         (case out of
            Response ok status b \<Rightarrow>
              (if ok then
                 saveError (step net (ResponseArrives i) s') = None \<and>
                 lastSaved (step net (ResponseArrives i) s') = Some finished
               else
                 lastSaved (step net (ResponseArrives i) s') = lastSaved s' \<and>
                 saveError (step net (ResponseArrives i) s') =
                   Some (case b of
                           Unparsable \<Rightarrow> Message ''Unknown error''
                         | ParsedNull msg \<Rightarrow>
                             Message (if msg \<noteq> [] then msg else ''Network error'')
                         | Parsed NoError \<Rightarrow> Message (''HTTP '' @ show_nat status)
                         | Parsed (ErrorString x) \<Rightarrow>
                             Message (if x \<noteq> [] then x else ''HTTP '' @ show_nat status)
                         | Parsed (ErrorValue v) \<Rightarrow> Value v))
          | Thrown msg \<Rightarrow>
              lastSaved (step net (ResponseArrives i) s') = lastSaved s' \<and>
              saveError (step net (ResponseArrives i) s') =
                Some (Message (if msg \<noteq> [] then msg else ''Network error'')))"
    if "i < length (inflight s')" and "inflight s' ! i = (finished, out)"
    for s' i finished out
    using that
    by (simp add: finishSave_def errorMsg_def
          split: outcome.splits body.splits error_prop.splits)
  have digits: "digits_value (show_nat status) = status \<and>
       set (show_nat status) \<subseteq> set ''0123456789'' \<and>
       (show_nat status = ''0'' \<or> hd (show_nat status) \<noteq> CHR ''0'')" for status
    using digits_value_show_nat [of status] show_nat_digits [of status]
      show_nat_canonical [of status]
    by (intro conjI)
  have still: "timer (run net es s') = None \<and> requests (run net es s') = requests s'"
    if "timer s' = None" and "list_all (\<lambda>e. \<not> qualifying e) es" for s' es
    using that by (rule run_no_retry)
  have rearm: "timer (step net (FilesChanged t (Some p) f) s') = Some (t + 1200, p, f)"
    if "p \<noteq> []" and "f \<noteq> []" for s' t p f
    using that by (simp add: persistEffect_timer)
  have A: "\<forall>s' i finished out.
       i < length (inflight s') \<and> inflight s' ! i = (finished, out) \<longrightarrow>
         timer (step net (ResponseArrives i) s') = timer s' \<and>
         requests (step net (ResponseArrives i) s') = requests s' \<and>
         inflight (step net (ResponseArrives i) s') =
           take i (inflight s') @ drop (Suc i) (inflight s') \<and>
         (case out of
            Response ok status b \<Rightarrow>
              (if ok then
                 saveError (step net (ResponseArrives i) s') = None \<and>
                 lastSaved (step net (ResponseArrives i) s') = Some finished
               else
                 lastSaved (step net (ResponseArrives i) s') = lastSaved s' \<and>
                 saveError (step net (ResponseArrives i) s') =
                   Some (case b of
                           Unparsable \<Rightarrow> Message ''Unknown error''
                         | ParsedNull msg \<Rightarrow>
                             Message (if msg \<noteq> [] then msg else ''Network error'')
                         | Parsed NoError \<Rightarrow> Message (''HTTP '' @ show_nat status)
                         | Parsed (ErrorString x) \<Rightarrow>
                             Message (if x \<noteq> [] then x else ''HTTP '' @ show_nat status)
                         | Parsed (ErrorValue v) \<Rightarrow> Value v))
          | Thrown msg \<Rightarrow>
              lastSaved (step net (ResponseArrives i) s') = lastSaved s' \<and>
              saveError (step net (ResponseArrives i) s') =
                Some (Message (if msg \<noteq> [] then msg else ''Network error'')))"
    by (intro allI impI, elim conjE, rule arrive, assumption+)
  have D: "\<forall>status. digits_value (show_nat status) = status \<and>
       set (show_nat status) \<subseteq> set ''0123456789'' \<and>
       (show_nat status = ''0'' \<or> hd (show_nat status) \<noteq> CHR ''0'')"
    by (intro allI) (rule digits)
  have S: "\<forall>s' es. timer s' = None \<and> list_all (\<lambda>e. \<not> qualifying e) es \<longrightarrow>
       timer (run net es s') = None \<and> requests (run net es s') = requests s'"
    by (intro allI impI, elim conjE, rule still, assumption+)
  have R: "\<forall>s' t p f. p \<noteq> [] \<and> f \<noteq> [] \<longrightarrow>
       timer (step net (FilesChanged t (Some p) f) s') = Some (t + 1200, p, f)"
    by (intro allI impI, elim conjE, rule rearm, assumption+)
  show ?thesis
    by (intro conjI) (rule start A D S R)+
qed

theorem write_attempt_transitions_witness:
  "timer armed = Some (1200, ''p1'', [file_app]) \<and> (1200::nat) \<le> 1210 \<and>
   requests (advance always_ok 1210 armed) = [(''p1'', sanitizeFileTree [file_app])] \<and>
   inflight (advance always_ok 1210 armed) = [(1250, Response True 200 (Parsed NoError))] \<and>
   saveError (advance always_ok 1210 armed) = None \<and>
   lastSaved (advance always_ok 1210 armed) = Some 7 \<and>
   saveError (step always_ok (ResponseArrives 0) (advance always_ok 1210 armed)) = None \<and>
   lastSaved (step always_ok (ResponseArrives 0) (advance always_ok 1210 armed)) = Some 1250 \<and>
   saveError (step always_500 (ResponseArrives 0) (advance always_500 1210 armed)) =
     Some (Message ''HTTP 500'') \<and>
   lastSaved (step always_500 (ResponseArrives 0) (advance always_500 1210 armed)) = Some 7 \<and>
   saveError (step quota_403 (ResponseArrives 0) (advance quota_403 1210 armed)) =
     Some (Message ''quota exceeded'') \<and>
   list_all (\<lambda>e. \<not> qualifying e) quiet_events \<and>
   timer (run always_500 quiet_events
            (step always_500 (ResponseArrives 0) (advance always_500 1210 armed))) = None \<and>
   requests (run always_500 quiet_events
               (step always_500 (ResponseArrives 0) (advance always_500 1210 armed))) =
     [(''p1'', sanitizeFileTree [file_app])] \<and>
   timer (step always_500 (FilesChanged 2000 (Some ''p1'') [file_a])
            (step always_500 (ResponseArrives 0) (advance always_500 1210 armed))) =
     Some (3200, ''p1'', [file_a])"
proof -
  have h1: "timer armed = Some (1200, ''p1'', [file_app])" by (simp add: armed_def)
  have h2: "(1200::nat) \<le> 1210" by simp
  note ok = write_attempt_transitions [OF h1 h2, of always_ok]
  note bad = write_attempt_transitions [OF h1 h2, of always_500]
  note quota = write_attempt_transitions [OF h1 h2, of quota_403]
  have l: "lastSaved armed = Some 7" "requests armed = []" "inflight armed = []"
    by (simp_all add: armed_def)
  have n: "always_ok 1200 = (Response True 200 (Parsed NoError), 1250)"
    "always_500 1200 = (Response False 500 (Parsed NoError), 1250)"
    "quota_403 1200 = (Response False 403 (Parsed (ErrorString ''quota exceeded'')), 1280)"
    by (simp_all add: always_ok_def always_500_def quota_403_def)
  have d: "show_nat 500 = ''500''"
    by code_simp
  have q: "list_all (\<lambda>e. \<not> qualifying e) quiet_events"
    by (simp add: quiet_events_def)
  have start_ok: "requests (advance always_ok 1210 armed) = [(''p1'', sanitizeFileTree [file_app])]"
    "inflight (advance always_ok 1210 armed) = [(1250, Response True 200 (Parsed NoError))]"
    "saveError (advance always_ok 1210 armed) = None"
    "lastSaved (advance always_ok 1210 armed) = Some 7"
    using ok l n by simp_all
  have start_bad: "requests (advance always_500 1210 armed) = [(''p1'', sanitizeFileTree [file_app])]"
    "inflight (advance always_500 1210 armed) = [(1250, Response False 500 (Parsed NoError))]"
    "lastSaved (advance always_500 1210 armed) = Some 7"
    "timer (advance always_500 1210 armed) = None"
    using bad l n by simp_all
  have start_quota:
    "inflight (advance quota_403 1210 armed) =
       [(1280, Response False 403 (Parsed (ErrorString ''quota exceeded'')))]"
    using quota l n by simp
  have arr_ok: "saveError (step always_ok (ResponseArrives 0) (advance always_ok 1210 armed)) = None"
    "lastSaved (step always_ok (ResponseArrives 0) (advance always_ok 1210 armed)) = Some 1250"
    using ok [THEN conjunct2, THEN conjunct2, THEN conjunct2, THEN conjunct2, THEN conjunct2,
        THEN conjunct1, rule_format,
        where i = 0 and s' = "advance always_ok 1210 armed" and finished = 1250
          and out = "Response True 200 (Parsed NoError)"]
      start_ok(2)
    by simp_all
  have arr_bad:
    "saveError (step always_500 (ResponseArrives 0) (advance always_500 1210 armed)) =
       Some (Message ''HTTP 500'')"
    "lastSaved (step always_500 (ResponseArrives 0) (advance always_500 1210 armed)) = Some 7"
    "timer (step always_500 (ResponseArrives 0) (advance always_500 1210 armed)) = None"
    "requests (step always_500 (ResponseArrives 0) (advance always_500 1210 armed)) =
       [(''p1'', sanitizeFileTree [file_app])]"
    using bad [THEN conjunct2, THEN conjunct2, THEN conjunct2, THEN conjunct2, THEN conjunct2,
        THEN conjunct1, rule_format,
        where i = 0 and s' = "advance always_500 1210 armed" and finished = 1250
          and out = "Response False 500 (Parsed NoError)"]
      start_bad d
    by simp_all
  have arr_quota:
    "saveError (step quota_403 (ResponseArrives 0) (advance quota_403 1210 armed)) =
       Some (Message ''quota exceeded'')"
    using quota [THEN conjunct2, THEN conjunct2, THEN conjunct2, THEN conjunct2, THEN conjunct2,
        THEN conjunct1, rule_format,
        where i = 0 and s' = "advance quota_403 1210 armed" and finished = 1280
          and out = "Response False 403 (Parsed (ErrorString ''quota exceeded''))"]
      start_quota
    by simp
  have still:
    "timer (run always_500 quiet_events
            (step always_500 (ResponseArrives 0) (advance always_500 1210 armed))) = None"
    "requests (run always_500 quiet_events
               (step always_500 (ResponseArrives 0) (advance always_500 1210 armed))) =
     [(''p1'', sanitizeFileTree [file_app])]"
    using bad [THEN conjunct2, THEN conjunct2, THEN conjunct2, THEN conjunct2, THEN conjunct2,
        THEN conjunct2, THEN conjunct2, THEN conjunct1, rule_format,
        where s' = "step always_500 (ResponseArrives 0) (advance always_500 1210 armed)"
          and es = quiet_events]
      arr_bad(3,4) q
    by simp_all
  have rearm:
    "timer (step always_500 (FilesChanged 2000 (Some ''p1'') [file_a])
            (step always_500 (ResponseArrives 0) (advance always_500 1210 armed))) =
     Some (3200, ''p1'', [file_a])"
    using bad [THEN conjunct2, THEN conjunct2, THEN conjunct2, THEN conjunct2, THEN conjunct2,
        THEN conjunct2, THEN conjunct2, THEN conjunct2, rule_format,
        where p = "''p1''" and f = "[file_a]" and t = 2000
          and s' = "step always_500 (ResponseArrives 0) (advance always_500 1210 armed)"]
    by simp
  show ?thesis
    using h1 h2 start_ok arr_ok arr_bad(1,2) arr_quota q still rearm
    by (intro conjI)
qed

section \<open>An empty tree is never written\<close>

text \<open>
  C10: whatever the project identifier and whatever timer was pending, after a change
  that leaves the tree empty no timer is set, no request has been issued by the effect,
  and the passing of time issues none.
\<close>

theorem empty_tree_not_persisted:
  "timer (persistEffect now projectId [] s) = None \<and>
   requests (persistEffect now projectId [] s) = requests s \<and>
   advance net later (persistEffect now projectId [] s) = persistEffect now projectId [] s"
proof -
  have t: "timer (persistEffect now projectId [] s) = None"
    by (simp add: persistEffect_def Let_def split: option.splits)
  then show ?thesis by (simp add: advance_def)
qed

section \<open>Updating content without aliasing\<close>



end
